theory Spec2Isabelle
  imports Main "HOL-Library.Multiset"
begin

section \<open>Characters and character classes\<close>

text \<open>
  A Python \<open>str\<close> is a sequence of code points. The model uses \<open>string\<close>, whose
  characters are the code points below 256; \<open>of_char\<close> reads the code point. The three
  classes below are the ones the source relies on, with the members Python gives them in
  that range: \<open>str.isspace\<close> (which is also the regular expression class \<open>\s\<close> and what
  \<open>str.strip\<close> removes), the class \<open>\w\<close> (alphanumeric or underscore) and
  \<open>str.isdigit\<close>.
\<close>

definition is_space :: "char \<Rightarrow> bool" where
  "is_space c = (of_char c \<in> {9, 10, 11, 12, 13, 28, 29, 30, 31, 32, 133, 160 :: nat})"

definition is_word :: "char \<Rightarrow> bool" where
  "is_word c =
     (let n = (of_char c :: nat) in
        (48 \<le> n \<and> n \<le> 57) \<or> (65 \<le> n \<and> n \<le> 90) \<or> n = 95 \<or> (97 \<le> n \<and> n \<le> 122)
        \<or> n = 170 \<or> n = 178 \<or> n = 179 \<or> n = 181 \<or> n = 185 \<or> n = 186
        \<or> (188 \<le> n \<and> n \<le> 190) \<or> (192 \<le> n \<and> n \<le> 214) \<or> (216 \<le> n \<and> n \<le> 246)
        \<or> 248 \<le> n)"

definition is_digit :: "char \<Rightarrow> bool" where
  "is_digit c =
     (let n = (of_char c :: nat) in (48 \<le> n \<and> n \<le> 57) \<or> n = 178 \<or> n = 179 \<or> n = 185)"

text \<open>Lower-casing of one code point, as the matcher does under \<open>re.IGNORECASE\<close>.\<close>

definition lower_chr :: "char \<Rightarrow> char" where
  "lower_chr c =
     (let n = (of_char c :: nat) in
        if (65 \<le> n \<and> n \<le> 90) \<or> (192 \<le> n \<and> n \<le> 214) \<or> (216 \<le> n \<and> n \<le> 222)
        then char_of (n + 32) else c)"

definition is_punct :: "char \<Rightarrow> bool" where
  "is_punct c = (c = CHR ''.'' \<or> c = CHR '','')"

definition is_sentence_punct :: "char \<Rightarrow> bool" where
  "is_sentence_punct c = (c = CHR ''.'' \<or> c = CHR '','' \<or> c = CHR ''!'' \<or> c = CHR ''?'')"

section \<open>The filler pattern\<close>

text \<open>
  The pattern of the removal pass is \<open>\b\<close>, the escaped filler, \<open>[.,]?\<close>, \<open>\b\<close>, matched
  with \<open>re.IGNORECASE\<close>. A position is described by the text that remains and by a flag
  telling whether the character before it is a word character (false at the start of the
  text). \<open>\b\<close> holds where that flag differs from the class of the next character (no next
  character counts as a non-word character).
\<close>

definition at_boundary :: "bool \<Rightarrow> string \<Rightarrow> bool" where
  "at_boundary pw t = (pw \<noteq> (case t of [] \<Rightarrow> False | c # _ \<Rightarrow> is_word c))"

fun match_literal :: "string \<Rightarrow> string \<Rightarrow> bool" where
  "match_literal [] t = True"
| "match_literal (a # as) [] = False"
| "match_literal (a # as) (c # cs) = (lower_chr c = lower_chr a \<and> match_literal as cs)"

definition prev_word :: "bool \<Rightarrow> string \<Rightarrow> nat \<Rightarrow> bool" where
  "prev_word pw t n = (if n = 0 then pw else is_word (t ! (n - 1)))"

text \<open>
  \<open>match_filler f pw t\<close> is the length of the match of the pattern for filler \<open>f\<close> at the
  start of \<open>t\<close>, if there is one. The optional class is greedy: the match with the
  punctuation character is tried first, and the matcher backtracks to the match without it
  when the closing \<open>\b\<close> fails after the punctuation.
\<close>

definition match_filler :: "string \<Rightarrow> bool \<Rightarrow> string \<Rightarrow> nat option" where
  "match_filler f pw t =
     (if at_boundary pw t \<and> match_literal f t then
        (let n = length f; r = drop n t in
         if (case r of [] \<Rightarrow> False | p # r' \<Rightarrow> is_punct p \<and> at_boundary (is_word p) r')
         then Some (n + 1)
         else if at_boundary (prev_word pw t n) r then Some n
         else None)
      else None)"

text \<open>
  \<open>re.sub(pattern, '', text)\<close>: scan from the left; where the pattern matches, drop the
  match and go on after it, otherwise keep the character and go on with the next one.
\<close>

function sub_filler :: "string \<Rightarrow> bool \<Rightarrow> string \<Rightarrow> string" where
  "sub_filler f pw [] = []"
| "sub_filler f pw (c # cs) =
     (case match_filler f pw (c # cs) of
        Some (Suc n) \<Rightarrow> sub_filler f (prev_word pw (c # cs) (Suc n)) (drop n cs)
      | _ \<Rightarrow> c # sub_filler f (is_word c) cs)"
  by pat_completeness auto
termination
  by (relation "measure (\<lambda>(f, pw, t). length t)") auto

section \<open>The cleanup substitutions\<close>

text \<open>\<open>re.sub(r'\s{2,}', ' ', text)\<close>: every run of two or more whitespace characters
  becomes one space.\<close>

function sub_spaces :: "string \<Rightarrow> string" where
  "sub_spaces [] = []"
| "sub_spaces (c # cs) =
     (if is_space c \<and> (case cs of [] \<Rightarrow> False | d # _ \<Rightarrow> is_space d)
      then CHR '' '' # sub_spaces (dropWhile is_space cs)
      else c # sub_spaces cs)"
  by pat_completeness auto
termination
  by (relation "measure length") (auto simp: length_dropWhile_le less_Suc_eq_le)

text \<open>\<open>re.sub(r'\s+([.,!?])', r'\1', text)\<close>: a run of whitespace that is followed by one
  of the four punctuation characters is dropped, the punctuation character is kept.\<close>

function sub_space_punct :: "string \<Rightarrow> string" where
  "sub_space_punct [] = []"
| "sub_space_punct (c # cs) =
     (if is_space c then
        (case dropWhile is_space cs of
           [] \<Rightarrow> c # sub_space_punct cs
         | p # r \<Rightarrow> if is_sentence_punct p then p # sub_space_punct r
                    else c # sub_space_punct cs)
      else c # sub_space_punct cs)"
  by pat_completeness auto
termination
proof (relation "measure length", goal_cases)
  case (3 c cs p r)
  have "length (dropWhile is_space cs) \<le> length cs"
    by (rule length_dropWhile_le)
  with 3 show ?case by simp
qed auto

text \<open>\<open>re.sub(r'^,\s*', '', text)\<close>: without \<open>re.MULTILINE\<close> the anchor is the start of
  the text only.\<close>

definition sub_leading_comma :: "string \<Rightarrow> string" where
  "sub_leading_comma t =
     (case t of [] \<Rightarrow> [] | c # cs \<Rightarrow> if c = CHR '','' then dropWhile is_space cs else t)"

definition strip :: "string \<Rightarrow> string" where
  "strip t = rev (dropWhile is_space (rev (dropWhile is_space t)))"

section \<open>clean_hesitations\<close>

definition FILLERS :: "string list" where
  "FILLERS = [''uh'', ''um'', ''hmm'']"

text \<open>The loop over the fillers, one removal pass for each in the order of the list.\<close>

fun remove_fillers :: "string list \<Rightarrow> string \<Rightarrow> string" where
  "remove_fillers [] text = text"
| "remove_fillers (filler # rest) text = remove_fillers rest (sub_filler filler False text)"

definition cleanup :: "string \<Rightarrow> string" where
  "cleanup text = strip (sub_leading_comma (sub_space_punct (sub_spaces text)))"

definition clean_hesitations :: "string \<Rightarrow> string" where
  "clean_hesitations text = cleanup (remove_fillers FILLERS text)"

section \<open>sanitize_vtt\<close>

text \<open>
  The file is opened in text mode, so the lines the loop sees are those of the content
  after universal-newline translation (a carriage return, alone or followed by a line
  feed, reads as one line feed), each with its line feed. The store maps a file name to
  the decoded text of the file; a name that is not there is the source's
  \<open>FileNotFoundError\<close>.
\<close>

datatype error = FileNotFoundError

type_synonym files = "string \<rightharpoonup> string"

definition LF :: char where
  "LF = CHR 0x0A"

definition CR :: char where
  "CR = CHR 0x0D"

fun universal_newlines :: "string \<Rightarrow> string" where
  "universal_newlines [] = []"
| "universal_newlines [c] = [if c = CR then LF else c]"
| "universal_newlines (c # d # ds) =
     (if c = CR \<and> d = LF then LF # universal_newlines ds
      else (if c = CR then LF else c) # universal_newlines (d # ds))"

fun file_lines :: "string \<Rightarrow> string list" where
  "file_lines [] = []"
| "file_lines (c # cs) =
     (if c = LF then [c] # file_lines cs
      else (case file_lines cs of [] \<Rightarrow> [[c]] | l # ls \<Rightarrow> (c # l) # ls))"

definition isdigit :: "string \<Rightarrow> bool" where
  "isdigit s = (s \<noteq> [] \<and> list_all is_digit s)"

fun str_contains :: "string \<Rightarrow> string \<Rightarrow> bool" where
  "str_contains sub [] = (sub = [])"
| "str_contains sub (c # cs) = (take (length sub) (c # cs) = sub \<or> str_contains sub cs)"

fun join :: "string \<Rightarrow> string list \<Rightarrow> string" where
  "join sep [] = []"
| "join sep [x] = x"
| "join sep (x # y # ys) = x @ sep @ join sep (y # ys)"

text \<open>The loop over the lines; each \<open>continue\<close> of the source is a branch that goes on
  with the list of kept lines unchanged.\<close>

fun sanitize_loop :: "string list \<Rightarrow> string list \<Rightarrow> string list" where
  "sanitize_loop [] cleaned_lines = cleaned_lines"
| "sanitize_loop (raw # rest) cleaned_lines =
     (let line = strip raw in
      if line = [] then sanitize_loop rest cleaned_lines
      else if line = ''WEBVTT'' then sanitize_loop rest cleaned_lines
      else if isdigit line then sanitize_loop rest cleaned_lines
      else if str_contains ''-->'' line then sanitize_loop rest cleaned_lines
      else sanitize_loop rest (cleaned_lines @ [line]))"

definition sanitize_vtt :: "files \<Rightarrow> string \<Rightarrow> error + string" where
  "sanitize_vtt fs filename =
     (case fs filename of
        None \<Rightarrow> Inl FileNotFoundError
      | Some content \<Rightarrow>
          Inr (join '' '' (sanitize_loop (file_lines (universal_newlines content)) [])))"

section \<open>create_pdf\<close>

text \<open>
  \<open>create_pdf\<close> builds the list \<open>story\<close> and hands it to the document builder. The model
  is the story: the title paragraph and its spacer, then for every segment of
  \<open>text.split('\n')\<close> that is not blank a paragraph in the normal style and a spacer.
\<close>

datatype style = Title | Normal

datatype flowable = Paragraph string style | Spacer nat nat

fun split_on :: "char \<Rightarrow> string \<Rightarrow> string list" where
  "split_on sep [] = [[]]"
| "split_on sep (c # cs) =
     (if c = sep then [] # split_on sep cs
      else (case split_on sep cs of [] \<Rightarrow> [[c]] | l # ls \<Rightarrow> (c # l) # ls))"

fun story_loop :: "string list \<Rightarrow> flowable list \<Rightarrow> flowable list" where
  "story_loop [] story = story"
| "story_loop (para # paragraphs) story =
     (if strip para \<noteq> [] then
        story_loop paragraphs (story @ [Paragraph (strip para) Normal, Spacer 1 8])
      else story_loop paragraphs story)"

definition create_pdf :: "string \<Rightarrow> flowable list" where
  "create_pdf text =
     story_loop (split_on LF text) [Paragraph ''Vimeo Subtitle Transcript'' Title, Spacer 1 12]"

fun is_body_paragraph :: "flowable \<Rightarrow> bool" where
  "is_body_paragraph (Paragraph s Normal) = True"
| "is_body_paragraph _ = False"

section \<open>The fetch and the pipeline\<close>

text \<open>
  The world a button press runs in: what the server answers (status code and content) to
  the \<open>n\<close>-th request made so far for a URL, the URLs requested so far, the files on disk
  and the status codes reported with \<open>st.error\<close>.
\<close>

record world =
  server :: "string \<Rightarrow> nat \<Rightarrow> nat \<times> string"
  requests :: "string list"
  disk :: files
  errors :: "nat list"

definition BASE_URL :: string where
  "BASE_URL = ''https://player.vimeo.com''"

definition FILENAME :: string where
  "FILENAME = ''subtitle.vtt''"

definition download_subtitles_file :: "string \<Rightarrow> world \<Rightarrow> bool \<times> world" where
  "download_subtitles_file full_url w =
     (let (status_code, content) = server w full_url (length (requests w));
          w1 = w\<lparr>requests := requests w @ [full_url]\<rparr>
      in if status_code = 200 then (True, w1\<lparr>disk := (disk w1)(FILENAME \<mapsto> content)\<rparr>)
         else (False, w1\<lparr>errors := errors w1 @ [status_code]\<rparr>))"

datatype outcome = Not_pressed | Stopped | Nothing_shown | Shown string "flowable list"

text \<open>
  \<open>setup_sanitize_download sub_path pressed w\<close>: one run of the script with the given
  path, \<open>pressed\<close> telling whether the button was pressed. \<open>Shown\<close> carries the text put in
  the text area (also the plain-text and word-processor exports) and the story of the PDF
  export.
\<close>

definition setup_sanitize_download :: "string \<Rightarrow> bool \<Rightarrow> world \<Rightarrow> (error + outcome) \<times> world" where
  "setup_sanitize_download sub_path pressed w =
     (if pressed then
        (let sub_path1 = (if take 1 sub_path = ''/'' then sub_path else ''/'' @ sub_path);
             full_url = BASE_URL @ sub_path1;
             (ignored, w1) = download_subtitles_file full_url w;
             (ok, w2) = download_subtitles_file full_url w1
         in if ok then
              (case sanitize_vtt (disk w2) FILENAME of
                 Inl e \<Rightarrow> (Inl e, w2)
               | Inr cleaned_text \<Rightarrow>
                   if cleaned_text \<noteq> [] then
                     (let filtered_text = clean_hesitations cleaned_text
                      in (Inr (Shown filtered_text (create_pdf filtered_text)), w2))
                   else (Inr Nothing_shown, w2))
            else (Inr Stopped, w2))
      else (Inr Not_pressed, w))"

section \<open>Properties of texts\<close>

text \<open>\<open>follows P Q t\<close>: somewhere in \<open>t\<close> a character of class \<open>P\<close> is immediately
  followed by a character of class \<open>Q\<close>.\<close>

fun follows :: "('a \<Rightarrow> bool) \<Rightarrow> ('a \<Rightarrow> bool) \<Rightarrow> 'a list \<Rightarrow> bool" where
  "follows P Q (a # b # cs) = (P a \<and> Q b \<or> follows P Q (b # cs))"
| "follows P Q [a] = False"
| "follows P Q [] = False"

definition has_space_run :: "string \<Rightarrow> bool" where
  "has_space_run t = follows is_space is_space t"

definition has_space_before_punct :: "string \<Rightarrow> bool" where
  "has_space_before_punct t = follows is_space is_sentence_punct t"

definition starts_with :: "('a \<Rightarrow> bool) \<Rightarrow> 'a list \<Rightarrow> bool" where
  "starts_with P t = (case t of [] \<Rightarrow> False | c # _ \<Rightarrow> P c)"

section \<open>The discard rule of the parser\<close>

text \<open>
  \<open>kept_lines\<close> is the list \<open>cleaned_lines\<close> the loop of \<open>sanitize_vtt\<close> ends with.
  \<open>spec_discards\<close> is the discard rule in the words of the specification: empty, the
  header token, decimal digits only, or containing the arrow. \<open>discards\<close> is the same rule
  with the digit test of the source, \<open>str.isdigit\<close>, which also holds of the superscript
  digits.
\<close>

definition is_decimal_digit :: "char \<Rightarrow> bool" where
  "is_decimal_digit c = (48 \<le> (of_char c :: nat) \<and> (of_char c :: nat) \<le> 57)"

definition spec_discards :: "string \<Rightarrow> bool" where
  "spec_discards line =
     (line = [] \<or> line = ''WEBVTT'' \<or> (line \<noteq> [] \<and> list_all is_decimal_digit line)
      \<or> str_contains ''-->'' line)"

definition discards :: "string \<Rightarrow> bool" where
  "discards line =
     (line = [] \<or> line = ''WEBVTT'' \<or> isdigit line \<or> str_contains ''-->'' line)"

definition kept_lines :: "string \<Rightarrow> string list" where
  "kept_lines content = sanitize_loop (file_lines (universal_newlines content)) []"

section \<open>Words and filler occurrences\<close>

text \<open>
  \<open>ci_eq w f\<close>: \<open>w\<close> equals \<open>f\<close> up to case. \<open>wordy f\<close>: \<open>f\<close> is not empty and made of
  word characters, as the three fillers are. \<open>punct_then_word r\<close>: \<open>r\<close> starts with a
  period or comma that a word character follows. \<open>filler_found f pw t\<close> is
  \<open>re.search\<close> with the pattern of the removal pass of \<open>f\<close>: the pattern matches
  somewhere in \<open>t\<close>. \<open>words t\<close> lists the maximal runs of word characters of \<open>t\<close>.
\<close>

definition ci_eq :: "string \<Rightarrow> string \<Rightarrow> bool" where
  "ci_eq w f = (map lower_chr w = map lower_chr f)"

definition wordy :: "string \<Rightarrow> bool" where
  "wordy f = (f \<noteq> [] \<and> list_all is_word f)"

definition punct_then_word :: "string \<Rightarrow> bool" where
  "punct_then_word r = (case r of [] \<Rightarrow> False | p # r' \<Rightarrow> is_punct p \<and> starts_with is_word r')"

fun filler_found :: "string \<Rightarrow> bool \<Rightarrow> string \<Rightarrow> bool" where
  "filler_found f pw [] = False"
| "filler_found f pw (c # cs) = (match_filler f pw (c # cs) \<noteq> None \<or> filler_found f (is_word c) cs)"

function words :: "string \<Rightarrow> string list" where
  "words [] = []"
| "words (c # cs) =
     (if is_word c then (c # takeWhile is_word cs) # words (dropWhile is_word cs) else words cs)"
  by pat_completeness auto
termination
  by (relation "measure length") (auto simp: length_dropWhile_le less_Suc_eq_le)

section \<open>Matches that take the punctuation\<close>

text \<open>
  \<open>punct_taken fs pw t\<close>: somewhere in \<open>t\<close> the pattern of one of the fillers \<open>fs\<close>
  matches with the punctuation character included, that is, a filler is immediately
  followed by a period or comma and then a word character.
\<close>

fun punct_taken :: "string list \<Rightarrow> bool \<Rightarrow> string \<Rightarrow> bool" where
  "punct_taken fs pw [] = False"
| "punct_taken fs pw (c # cs) =
     ((\<exists>f \<in> set fs. match_filler f pw (c # cs) = Some (Suc (length f)))
      \<or> punct_taken fs (is_word c) cs)"

section \<open>Concrete inputs\<close>

definition example_lines :: "string list" where
  "example_lines =
     [''WEBVTT'', ''1'', ''00:00:01.000 --> 00:00:02.000'', ''Uh, hello world.'', [],
      ''2'', ''00:00:03.000 --> 00:00:04.000'', ''um this is, hmm a test'']"

definition example_payload :: string where
  "example_payload = join [LF] example_lines"

text \<open>A world whose server answers every request with status 404.\<close>

definition failing_world :: world where
  "failing_world = \<lparr>server = (\<lambda>url n. (404, [])), requests = [], disk = Map.empty, errors = []\<rparr>"

section \<open>The program on concrete inputs\<close>

text \<open>
  C1 (idempotence of \<open>clean_hesitations\<close>), evaluated where it fails: two fillers in a
  row, each followed by a comma, leave two commas at the start of the text; the
  substitution for a leading comma removes one of them, so the first result is
  \<open>, hello\<close> and a second application changes it to \<open>hello\<close>.
\<close>

theorem clean_hesitations_not_idempotent:
  "clean_hesitations ''Um, uh, hello'' = '', hello''
   \<and> clean_hesitations (clean_hesitations ''Um, uh, hello'') = ''hello''"
  by code_simp

text \<open>
  C3 (the removal pass deletes a filler together with a following period or comma,
  whatever comes after the punctuation), evaluated where it fails: the closing \<open>\b\<close> of
  the pattern stands after the optional punctuation, so the punctuation is part of the
  match only when a word character follows it. Before a space or at the end of the text
  the filler alone is removed and the punctuation stays.
\<close>

theorem filler_pass_keeps_punctuation:
  "remove_fillers FILLERS ''um, hi'' = '', hi'' \<and> remove_fillers FILLERS ''um.'' = ''.''"
  by code_simp

text \<open>
  C4 (the result of \<open>clean_hesitations\<close> does not start with a comma), evaluated where
  it fails: the result for \<open>Um, uh, hello\<close> starts with a comma followed by a space.
\<close>

theorem clean_hesitations_leading_comma:
  "take 2 (clean_hesitations ''Um, uh, hello'') = '', ''"
  by code_simp

text \<open>
  C9 (at most one fetch for one press of the button, no second fetch after a failed
  one), evaluated where it fails: \<open>setup_sanitize_download\<close> calls
  \<open>download_subtitles_file\<close> twice, the first time dropping its result. With a server that
  answers 404 the URL is requested twice and the error is reported twice before the run
  stops.
\<close>

theorem failed_fetch_is_repeated:
  "requests (snd (setup_sanitize_download ''texttrack/1.vtt'' True failing_world))
     = [''https://player.vimeo.com/texttrack/1.vtt'', ''https://player.vimeo.com/texttrack/1.vtt'']
   \<and> errors (snd (setup_sanitize_download ''texttrack/1.vtt'' True failing_world)) = [404, 404]
   \<and> fst (setup_sanitize_download ''texttrack/1.vtt'' True failing_world) = Inr Stopped"
  by code_simp

text \<open>
  C7 as stated (on the example payload \<open>sanitize_vtt\<close> returns
  \<open>Uh, hello world. this is, hmm a test\<close>, and \<open>clean_hesitations\<close> of that text is
  \<open>hello world. this is, a test\<close>) does not hold: \<open>sanitize_vtt\<close> removes no filler, so
  the \<open>um\<close> that starts the second cue is still in its result.
\<close>

theorem example_parse_counterexample:
  "\<not> (sanitize_vtt [FILENAME \<mapsto> example_payload] FILENAME
          = Inr ''Uh, hello world. this is, hmm a test''
      \<and> clean_hesitations ''Uh, hello world. this is, hmm a test''
          = ''hello world. this is, a test'')"
  by code_simp

text \<open>
  C7, amended: on the example payload \<open>sanitize_vtt\<close> returns
  \<open>Uh, hello world. um this is, hmm a test\<close>, and \<open>clean_hesitations\<close> of that text is
  \<open>hello world. this is, a test\<close>.
\<close>

theorem example_pipeline:
  "sanitize_vtt [FILENAME \<mapsto> example_payload] FILENAME
     = Inr ''Uh, hello world. um this is, hmm a test''
   \<and> clean_hesitations ''Uh, hello world. um this is, hmm a test''
     = ''hello world. this is, a test''"
  by code_simp

section \<open>Whitespace in the result of clean_hesitations\<close>

lemma starts_with_simps [simp]:
  "starts_with P [] = False" "starts_with P (c # cs) = P c"
  by (simp_all add: starts_with_def)

lemma follows_Cons: "follows P Q (a # t) = (P a \<and> starts_with Q t \<or> follows P Q t)"
  by (cases t) simp_all

lemma follows_append:
  "follows P Q (xs @ ys) =
     (follows P Q xs \<or> follows P Q ys \<or> (xs \<noteq> [] \<and> P (last xs) \<and> starts_with Q ys))"
proof (induction xs)
  case Nil
  then show ?case by simp
next
  case (Cons a xs)
  show ?case
  proof (cases xs)
    case Nil
    then show ?thesis by (auto simp: follows_Cons)
  next
    case (Cons b bs)
    with Cons.IH show ?thesis by auto
  qed
qed

lemma follows_dropWhile: "follows P Q (dropWhile S xs) \<Longrightarrow> follows P Q xs"
  using follows_append [of P Q "takeWhile S xs" "dropWhile S xs"] by simp

lemma follows_rev: "follows P Q (rev xs) = follows Q P xs"
proof (induction xs)
  case Nil
  then show ?case by simp
next
  case (Cons a xs)
  have "starts_with P xs = (xs \<noteq> [] \<and> P (last (rev xs)))"
    by (cases xs) simp_all
  with Cons show ?case
    by (auto simp: follows_append follows_Cons)
qed

lemma follows_strip: "follows P Q (strip t) \<Longrightarrow> follows P Q t"
proof -
  assume "follows P Q (strip t)"
  then have "follows Q P (dropWhile is_space (rev (dropWhile is_space t)))"
    by (simp add: strip_def follows_rev)
  then have "follows Q P (rev (dropWhile is_space t))"
    by (rule follows_dropWhile)
  then have "follows P Q (dropWhile is_space t)"
    by (simp add: follows_rev)
  then show ?thesis by (rule follows_dropWhile)
qed

lemma follows_sub_leading_comma: "follows P Q (sub_leading_comma t) \<Longrightarrow> follows P Q t"
  by (cases t) (auto simp: sub_leading_comma_def follows_Cons dest: follows_dropWhile split: if_splits)

lemma punct_not_space: "is_sentence_punct p \<Longrightarrow> \<not> is_space p"
  by (auto simp: is_sentence_punct_def is_space_def)

lemma starts_space_sub_spaces: "starts_with is_space (sub_spaces t) = starts_with is_space t"
  by (cases t) (auto simp: is_space_def)

lemma starts_dropWhile: "\<not> starts_with S (dropWhile S t)"
  by (induction t) auto

lemma no_space_run_sub_spaces: "\<not> has_space_run (sub_spaces t)"
  unfolding has_space_run_def
  by (induction t rule: sub_spaces.induct)
     (auto simp: follows_Cons starts_space_sub_spaces starts_dropWhile split: list.splits)

lemma sub_space_punct_match:
  "is_space c \<Longrightarrow> dropWhile is_space cs = p # r \<Longrightarrow> is_sentence_punct p
   \<Longrightarrow> sub_space_punct (c # cs) = p # sub_space_punct r"
  by (simp del: dropWhile_eq_Nil_conv)

lemma sub_space_punct_keep:
  "\<not> (is_space c \<and> starts_with is_sentence_punct (dropWhile is_space cs))
   \<Longrightarrow> sub_space_punct (c # cs) = c # sub_space_punct cs"
  by (cases "dropWhile is_space cs") (simp_all del: dropWhile_eq_Nil_conv)

lemma starts_punct_sub_space_punct:
  "starts_with is_sentence_punct (sub_space_punct t)
     = starts_with is_sentence_punct (dropWhile is_space t)"
proof (cases t)
  case Nil
  then show ?thesis by simp
next
  case (Cons c cs)
  show ?thesis
  proof (cases "is_space c")
    case False
    with Cons show ?thesis by simp
  next
    case True
    show ?thesis
    proof (cases "starts_with is_sentence_punct (dropWhile is_space cs)")
      case False
      with Cons True show ?thesis
        by (auto simp: sub_space_punct_keep simp del: sub_space_punct.simps dest: punct_not_space)
    next
      case yes: True
      then obtain p r where "dropWhile is_space cs = p # r" "is_sentence_punct p"
        by (cases "dropWhile is_space cs") auto
      with Cons True show ?thesis
        by (simp add: sub_space_punct_match del: sub_space_punct.simps)
    qed
  qed
qed

lemma starts_space_sub_space_punct:
  "starts_with is_space (sub_space_punct t) \<Longrightarrow> starts_with is_space t"
  by (cases t) (auto simp: punct_not_space simp del: dropWhile_eq_Nil_conv split: list.splits if_splits)

lemma no_space_before_punct_sub_space_punct: "\<not> has_space_before_punct (sub_space_punct t)"
  unfolding has_space_before_punct_def
proof (induction t rule: sub_space_punct.induct)
  case 1
  then show ?case by simp
next
  case (2 c cs)
  show ?case
  proof (cases "is_space c \<and> starts_with is_sentence_punct (dropWhile is_space cs)")
    case False
    then have "sub_space_punct (c # cs) = c # sub_space_punct cs"
      by (rule sub_space_punct_keep)
    moreover have "\<not> follows is_space is_sentence_punct (sub_space_punct cs)"
      using 2 False by (cases "dropWhile is_space cs") (auto simp del: dropWhile_eq_Nil_conv)
    ultimately show ?thesis
      using False by (auto simp: follows_Cons starts_punct_sub_space_punct)
  next
    case True
    then obtain p r where pr: "dropWhile is_space cs = p # r" "is_sentence_punct p"
      by (cases "dropWhile is_space cs") auto
    with True have "sub_space_punct (c # cs) = p # sub_space_punct r"
      by (simp add: sub_space_punct_match del: sub_space_punct.simps)
    moreover have "\<not> follows is_space is_sentence_punct (sub_space_punct r)"
      using 2(2) [OF _ pr(1) pr(2)] True by simp
    ultimately show ?thesis
      using pr by (simp add: follows_Cons punct_not_space)
  qed
qed

lemma follows_dropWhile_Cons:
  assumes "dropWhile S xs = p # r" and "follows P Q r"
  shows "follows P Q xs"
proof -
  from assms have "follows P Q (dropWhile S xs)" by (simp add: follows_Cons)
  then show ?thesis by (rule follows_dropWhile)
qed

lemma space_run_sub_space_punct: "has_space_run (sub_space_punct t) \<Longrightarrow> has_space_run t"
  unfolding has_space_run_def
proof (induction t rule: sub_space_punct.induct)
  case 1
  then show ?case by simp
next
  case (2 c cs)
  show ?case
  proof (cases "is_space c \<and> starts_with is_sentence_punct (dropWhile is_space cs)")
    case False
    then have eq: "sub_space_punct (c # cs) = c # sub_space_punct cs"
      by (rule sub_space_punct_keep)
    have ih: "follows is_space is_space (sub_space_punct cs) \<Longrightarrow> follows is_space is_space cs"
      using 2 False by (cases "dropWhile is_space cs") (auto simp del: dropWhile_eq_Nil_conv)
    from "2.prems" eq have "is_space c \<and> starts_with is_space (sub_space_punct cs)
        \<or> follows is_space is_space (sub_space_punct cs)"
      by (simp add: follows_Cons)
    then show ?thesis
      using ih by (auto simp: follows_Cons dest: starts_space_sub_space_punct)
  next
    case True
    then obtain p r where pr: "dropWhile is_space cs = p # r" "is_sentence_punct p"
      by (cases "dropWhile is_space cs") auto
    with True have eq: "sub_space_punct (c # cs) = p # sub_space_punct r"
      by (simp add: sub_space_punct_match del: sub_space_punct.simps)
    have ih: "follows is_space is_space (sub_space_punct r) \<Longrightarrow> follows is_space is_space r"
      using 2(2) [OF _ pr(1) pr(2)] True by simp
    from "2.prems" eq pr have "follows is_space is_space (sub_space_punct r)"
      by (simp add: follows_Cons punct_not_space)
    then have "follows is_space is_space r" by (rule ih)
    with pr(1) have "follows is_space is_space cs" by (rule follows_dropWhile_Cons)
    then show ?thesis by (simp add: follows_Cons)
  qed
qed

text \<open>
  C6: for every text \<open>x\<close>, the result of \<open>clean_hesitations\<close> has no two whitespace
  characters in a row and no whitespace character immediately before one of
  \<open>.\<close>, \<open>,\<close>, \<open>!\<close>, \<open>?\<close>. The collapsing substitution leaves no run, the next one
  removes the whitespace before punctuation without making a run, and the last two steps
  only cut the text at its ends.
\<close>

theorem clean_hesitations_spacing:
  "\<not> has_space_run (clean_hesitations x) \<and> \<not> has_space_before_punct (clean_hesitations x)"
proof
  show "\<not> has_space_run (clean_hesitations x)"
    using no_space_run_sub_spaces [of "remove_fillers FILLERS x"]
    unfolding clean_hesitations_def cleanup_def has_space_run_def
    by (blast dest: follows_strip follows_sub_leading_comma
           space_run_sub_space_punct [unfolded has_space_run_def])
  show "\<not> has_space_before_punct (clean_hesitations x)"
    using no_space_before_punct_sub_space_punct [of "sub_spaces (remove_fillers FILLERS x)"]
    unfolding clean_hesitations_def cleanup_def has_space_before_punct_def
    by (blast dest: follows_strip follows_sub_leading_comma)
qed

theorem clean_hesitations_spacing_witness:
  "clean_hesitations ''well ,  um\<newline>\<newline>yes  !'' = ''well, yes!''
   \<and> \<not> has_space_run (clean_hesitations ''well ,  um\<newline>\<newline>yes  !'')
   \<and> \<not> has_space_before_punct (clean_hesitations ''well ,  um\<newline>\<newline>yes  !'')"
proof -
  have "clean_hesitations ''well ,  um\<newline>\<newline>yes  !'' = ''well, yes!''"
    by code_simp
  then show ?thesis
    using clean_hesitations_spacing [of "''well ,  um\<newline>\<newline>yes  !''"] by simp
qed

section \<open>The lines sanitize_vtt keeps\<close>

lemma sanitize_loop_filter:
  "sanitize_loop ls acc = acc @ filter (\<lambda>l. \<not> discards l) (map strip ls)"
  by (induction ls arbitrary: acc) (simp_all add: discards_def Let_def)

text \<open>
  C8 as stated (a line is discarded exactly when, trimmed, it is empty, the header token,
  made of decimal digits only, or contains the arrow) does not hold: the source tests
  \<open>line.isdigit()\<close>, and that is true of the superscript digits too. A line holding only a
  superscript two (code point 178) is discarded, though it is none of the four.
\<close>

theorem superscript_line_counterexample:
  "sanitize_vtt [FILENAME \<mapsto> [CHR 0xB2, LF, CHR ''a'']] FILENAME = Inr ''a''
   \<and> \<not> spec_discards (strip [CHR 0xB2, LF])"
  by code_simp

text \<open>
  C8, amended: \<open>sanitize_vtt\<close> discards a line exactly when, trimmed, it is empty, equals
  \<open>WEBVTT\<close>, consists entirely of digit characters in the sense of \<open>str.isdigit\<close>, or
  contains \<open>-->\<close>; the other trimmed lines are kept in order and joined with single
  spaces, so no kept segment is empty, equals the header token, is all digits or contains
  the arrow.
\<close>

theorem sanitize_vtt_discards:
  "sanitize_vtt (fs(filename \<mapsto> content)) filename = Inr (join '' '' (kept_lines content))
   \<and> kept_lines content
       = filter (\<lambda>line. \<not> discards line) (map strip (file_lines (universal_newlines content)))
   \<and> (\<forall>seg \<in> set (kept_lines content).
         seg \<noteq> [] \<and> seg \<noteq> ''WEBVTT'' \<and> \<not> isdigit seg \<and> \<not> str_contains ''-->'' seg)"
  by (auto simp: sanitize_vtt_def kept_lines_def sanitize_loop_filter discards_def)

theorem sanitize_vtt_discards_witness:
  "sanitize_vtt [FILENAME \<mapsto> example_payload] FILENAME = Inr (join '' '' (kept_lines example_payload))
   \<and> kept_lines example_payload = [''Uh, hello world.'', ''um this is, hmm a test'']
   \<and> kept_lines example_payload
       = filter (\<lambda>line. \<not> discards line) (map strip (file_lines (universal_newlines example_payload)))"
proof -
  have "kept_lines example_payload = [''Uh, hello world.'', ''um this is, hmm a test'']"
    by code_simp
  then show ?thesis
    using sanitize_vtt_discards [of Map.empty FILENAME example_payload] by simp
qed

section \<open>No line feed reaches the exporters\<close>

lemma file_lines_LF: "l \<in> set (file_lines t) \<Longrightarrow> LF \<notin> set (butlast l)"
proof (induction t arbitrary: l)
  case Nil
  then show ?case by simp
next
  case (Cons c cs)
  then show ?case
    by (cases "file_lines cs") (auto split: if_splits)
qed

lemma LF_space: "is_space LF"
  by (simp add: LF_def is_space_def)

lemma butlast_dropWhile_subset: "set (butlast (dropWhile P t)) \<subseteq> set (butlast t)"
proof -
  have "dropWhile P t = drop (length (takeWhile P t)) t"
    by (rule dropWhile_eq_drop)
  then show ?thesis
    by (metis butlast_drop set_drop_subset)
qed

lemma rstrip_no_LF:
  assumes "LF \<notin> set (butlast t)"
  shows "LF \<notin> set (dropWhile is_space (rev t))"
proof (cases t rule: rev_cases)
  case Nil
  then show ?thesis by simp
next
  case (snoc b x)
  with assms have b: "LF \<notin> set b" by simp
  show ?thesis
  proof (cases "is_space x")
    case True
    have "set (dropWhile is_space (rev b)) \<subseteq> set (rev b)"
      by (rule set_dropWhileD [THEN subsetI])
    with True snoc b show ?thesis by auto
  next
    case False
    then have "x \<noteq> LF" using LF_space by auto
    with False snoc b show ?thesis by auto
  qed
qed

lemma strip_no_LF: "LF \<notin> set (butlast t) \<Longrightarrow> LF \<notin> set (strip t)"
  unfolding strip_def set_rev
  using butlast_dropWhile_subset [of is_space t]
  by (intro rstrip_no_LF) auto

lemma set_sanitize_loop: "set (sanitize_loop ls acc) \<subseteq> set acc \<union> strip ` set ls"
  by (auto simp: sanitize_loop_filter)

lemma set_join: "set (join sep xs) \<subseteq> set sep \<union> \<Union> (set ` set xs)"
  by (induction sep xs rule: join.induct) auto

lemma kept_line_no_LF:
  assumes "l \<in> set (sanitize_loop (file_lines t) [])"
  shows "LF \<notin> set l"
proof -
  from assms set_sanitize_loop [of "file_lines t" "[]"]
  obtain raw where raw: "raw \<in> set (file_lines t)" "l = strip raw"
    by auto
  from raw(1) have "LF \<notin> set (butlast raw)" by (rule file_lines_LF)
  then have "LF \<notin> set (strip raw)" by (rule strip_no_LF)
  with raw(2) show ?thesis by simp
qed

lemma join_no_LF:
  assumes "\<And>l. l \<in> set xs \<Longrightarrow> LF \<notin> set l"
  shows "LF \<notin> set (join '' '' xs)"
proof
  assume "LF \<in> set (join '' '' xs)"
  with set_join [of "'' ''" xs] have "LF \<in> set '' '' \<union> \<Union> (set ` set xs)" by (rule rev_subsetD [rotated])
  moreover have "LF \<notin> set '' ''" by (simp add: LF_def)
  ultimately obtain l where "l \<in> set xs" "LF \<in> set l" by auto
  with assms show False by simp
qed

lemma sanitize_vtt_no_LF:
  assumes "sanitize_vtt fs filename = Inr cleaned_text"
  shows "LF \<notin> set cleaned_text"
proof -
  from assms obtain content where
    eq: "cleaned_text = join '' '' (sanitize_loop (file_lines (universal_newlines content)) [])"
    by (auto simp: sanitize_vtt_def split: option.splits)
  show ?thesis
    unfolding eq by (rule join_no_LF) (rule kept_line_no_LF)
qed

lemma set_sub_filler: "set (sub_filler f pw t) \<subseteq> set t"
proof (induction f pw t rule: sub_filler.induct)
  case (1 f pw)
  then show ?case by simp
next
  case (2 f pw c cs)
  show ?case
  proof (cases "match_filler f pw (c # cs)")
    case None
    with 2 show ?thesis by auto
  next
    case (Some m)
    show ?thesis
    proof (cases m)
      case 0
      with Some 2 show ?thesis by auto
    next
      case (Suc n)
      with Some 2 have "set (sub_filler f pw (c # cs)) \<subseteq> set (drop n cs)" by simp
      then show ?thesis using set_drop_subset [of n cs] by auto
    qed
  qed
qed

lemma set_remove_fillers: "set (remove_fillers fs t) \<subseteq> set t"
  by (induction fs arbitrary: t) (auto dest: set_sub_filler [THEN subsetD])

lemma set_sub_spaces: "set (sub_spaces t) \<subseteq> insert CHR '' '' (set t)"
proof (induction t rule: sub_spaces.induct)
  case 1
  then show ?case by simp
next
  case (2 c cs)
  show ?case
  proof (cases "is_space c \<and> starts_with is_space cs")
    case True
    then have "sub_spaces (c # cs) = CHR '' '' # sub_spaces (dropWhile is_space cs)"
      by (cases cs) simp_all
    moreover have "set (sub_spaces (dropWhile is_space cs)) \<subseteq> insert CHR '' '' (set (dropWhile is_space cs))"
      using 2(1) True by (cases cs) simp_all
    moreover have "set (dropWhile is_space cs) \<subseteq> set cs"
      by (auto dest: set_dropWhileD)
    ultimately show ?thesis by auto
  next
    case False
    then have "sub_spaces (c # cs) = c # sub_spaces cs"
      by (cases cs) auto
    moreover have "set (sub_spaces cs) \<subseteq> insert CHR '' '' (set cs)"
      using 2(2) False by (cases cs) auto
    ultimately show ?thesis by auto
  qed
qed

lemma set_sub_space_punct: "set (sub_space_punct t) \<subseteq> set t"
proof (induction t rule: sub_space_punct.induct)
  case 1
  then show ?case by simp
next
  case (2 c cs)
  show ?case
  proof (cases "is_space c \<and> starts_with is_sentence_punct (dropWhile is_space cs)")
    case False
    then have "sub_space_punct (c # cs) = c # sub_space_punct cs"
      by (rule sub_space_punct_keep)
    moreover have "set (sub_space_punct cs) \<subseteq> set cs"
      using 2 False by (cases "dropWhile is_space cs") (auto simp del: dropWhile_eq_Nil_conv)
    ultimately show ?thesis by auto
  next
    case True
    then obtain p r where pr: "dropWhile is_space cs = p # r" "is_sentence_punct p"
      by (cases "dropWhile is_space cs") auto
    with True have "sub_space_punct (c # cs) = p # sub_space_punct r"
      by (simp add: sub_space_punct_match del: sub_space_punct.simps)
    moreover have "set (sub_space_punct r) \<subseteq> set r"
      using 2(2) [OF _ pr(1) pr(2)] True by simp
    moreover have "set (p # r) \<subseteq> set cs"
      using set_dropWhileD [of _ is_space cs] pr(1) by auto
    ultimately show ?thesis by auto
  qed
qed

lemma set_sub_leading_comma: "set (sub_leading_comma t) \<subseteq> set t"
  by (cases t) (auto simp: sub_leading_comma_def dest: set_dropWhileD)

lemma set_strip: "set (strip t) \<subseteq> set t"
  by (auto simp: strip_def dest!: set_dropWhileD)

lemma set_cleanup: "set (cleanup t) \<subseteq> insert CHR '' '' (set t)"
proof -
  have "set (cleanup t) \<subseteq> set (sub_leading_comma (sub_space_punct (sub_spaces t)))"
    unfolding cleanup_def by (rule set_strip)
  also have "\<dots> \<subseteq> set (sub_space_punct (sub_spaces t))"
    by (rule set_sub_leading_comma)
  also have "\<dots> \<subseteq> set (sub_spaces t)"
    by (rule set_sub_space_punct)
  also have "\<dots> \<subseteq> insert CHR '' '' (set t)"
    by (rule set_sub_spaces)
  finally show ?thesis .
qed

lemma set_clean_hesitations: "set (clean_hesitations t) \<subseteq> insert CHR '' '' (set t)"
proof -
  have "set (clean_hesitations t) \<subseteq> insert CHR '' '' (set (remove_fillers FILLERS t))"
    unfolding clean_hesitations_def by (rule set_cleanup)
  also have "\<dots> \<subseteq> insert CHR '' '' (set t)"
    using set_remove_fillers [of FILLERS t] by auto
  finally show ?thesis .
qed

lemma split_on_absent: "sep \<notin> set t \<Longrightarrow> split_on sep t = [t]"
  by (induction t) auto

lemma story_loop_single:
  "length (filter is_body_paragraph (story_loop [para] story))
     \<le> Suc (length (filter is_body_paragraph story))"
  by simp

text \<open>
  C10: whatever the file holds, the text \<open>sanitize_vtt\<close> returns has no line feed
  (every line is stripped and the kept lines are joined with spaces), \<open>clean_hesitations\<close>
  adds none, and so \<open>create_pdf\<close> on the cleaned transcript puts at most one body
  paragraph after the title.
\<close>

theorem pipeline_single_paragraph:
  assumes "sanitize_vtt fs filename = Inr cleaned_text"
  shows "LF \<notin> set (clean_hesitations cleaned_text)
         \<and> length (filter is_body_paragraph (create_pdf (clean_hesitations cleaned_text))) \<le> 1"
proof -
  have "LF \<notin> set cleaned_text"
    using assms by (rule sanitize_vtt_no_LF)
  moreover have "LF \<noteq> CHR '' ''" by (simp add: LF_def)
  ultimately have no: "LF \<notin> set (clean_hesitations cleaned_text)"
    using set_clean_hesitations [of cleaned_text] by auto
  then have "split_on LF (clean_hesitations cleaned_text) = [clean_hesitations cleaned_text]"
    by (rule split_on_absent)
  then have "length (filter is_body_paragraph (create_pdf (clean_hesitations cleaned_text))) \<le> 1"
    by (simp add: create_pdf_def)
  with no show ?thesis by simp
qed

theorem pipeline_single_paragraph_witness:
  "sanitize_vtt [FILENAME \<mapsto> example_payload] FILENAME
     = Inr ''Uh, hello world. um this is, hmm a test''
   \<and> LF \<notin> set (clean_hesitations ''Uh, hello world. um this is, hmm a test'')
   \<and> length (filter is_body_paragraph
        (create_pdf (clean_hesitations ''Uh, hello world. um this is, hmm a test''))) \<le> 1"
proof -
  have h: "sanitize_vtt [FILENAME \<mapsto> example_payload] FILENAME
     = Inr ''Uh, hello world. um this is, hmm a test''"
    by code_simp
  show ?thesis
    using h pipeline_single_paragraph [OF h] by simp
qed

section \<open>The removal pass on runs of word characters\<close>

lemma is_word_lower_chr: "is_word (lower_chr c) = is_word c"
  by (auto simp: is_word_def lower_chr_def Let_def)

lemma lower_eq_word: "lower_chr c = lower_chr a \<Longrightarrow> is_word c = is_word a"
  by (metis is_word_lower_chr)

lemma punct_not_word: "is_punct p \<Longrightarrow> \<not> is_word p"
  by (auto simp: is_punct_def is_word_def)

lemma space_not_word: "is_space c \<Longrightarrow> \<not> is_word c"
  by (auto simp: is_space_def is_word_def)

lemma sentence_punct_not_word: "is_sentence_punct p \<Longrightarrow> \<not> is_word p"
  by (auto simp: is_sentence_punct_def is_word_def)

lemma runs_induct [case_names Nil Sep Run]:
  assumes "P []"
    and "\<And>c cs. \<not> is_word c \<Longrightarrow> P cs \<Longrightarrow> P (c # cs)"
    and "\<And>w r. w \<noteq> [] \<Longrightarrow> list_all is_word w \<Longrightarrow> \<not> starts_with is_word r \<Longrightarrow> P r \<Longrightarrow> P (w @ r)"
  shows "P t"
proof (induction t rule: length_induct)
  case (1 t)
  show ?case
  proof (cases t)
    case Nil
    with assms(1) show ?thesis by simp
  next
    case (Cons c cs)
    show ?thesis
    proof (cases "is_word c")
      case False
      with 1 Cons assms(2) show ?thesis by simp
    next
      case True
      let ?w = "takeWhile is_word t" and ?r = "dropWhile is_word t"
      have "?w \<noteq> []" using True Cons by simp
      moreover have "list_all is_word ?w"
        by (auto simp: list_all_iff dest: set_takeWhileD)
      moreover have "\<not> starts_with is_word ?r" by (rule starts_dropWhile)
      moreover have "length ?r < length t"
        using True Cons by (simp add: length_dropWhile_le less_Suc_eq_le)
      with 1 have "P ?r" by simp
      ultimately have "P (?w @ ?r)" by (rule assms(3))
      then show ?thesis by simp
    qed
  qed
qed

lemma match_literal_run:
  assumes "list_all is_word f" and "\<not> starts_with is_word r"
  shows "match_literal f (w @ r) = (length f \<le> length w \<and> ci_eq (take (length f) w) f)"
  using assms(1)
proof (induction f arbitrary: w)
  case Nil
  then show ?case by (simp add: ci_eq_def)
next
  case (Cons a as)
  show ?case
  proof (cases w)
    case Nil
    with Cons.prems assms(2) show ?thesis
      by (cases r) (auto dest: lower_eq_word)
  next
    case (Cons x xs)
    with Cons.IH [of xs] Cons.prems show ?thesis
      by (auto simp: ci_eq_def)
  qed
qed

lemma match_filler_sep:
  assumes "wordy f" and "\<not> is_word c"
  shows "match_filler f pw (c # cs) = None"
proof -
  from assms(1) obtain a as where f: "f = a # as" "is_word a"
    by (cases f) (auto simp: wordy_def)
  with assms(2) have "\<not> match_literal f (c # cs)"
    by (auto dest: lower_eq_word)
  then show ?thesis by (simp add: match_filler_def)
qed

lemma match_filler_inside: "is_word c \<Longrightarrow> match_filler f True (c # cs) = None"
  by (simp add: match_filler_def at_boundary_def)

lemma ci_eq_length: "ci_eq w f \<Longrightarrow> length w = length f"
  unfolding ci_eq_def by (rule map_eq_imp_length_eq)

lemma at_boundary_starts:
  "at_boundary True r = (\<not> starts_with is_word r)" "at_boundary False r = starts_with is_word r"
  by (cases r; simp add: at_boundary_def)+

lemma prev_word_run:
  assumes "0 < n" and "n \<le> length w" and "list_all is_word w"
  shows "prev_word pw (w @ r) n"
proof -
  from assms(1,2) have "n - 1 < length w" by arith
  with assms(3) have "is_word (w ! (n - 1))" by (simp add: list_all_length)
  with assms(1) \<open>n - 1 < length w\<close> show ?thesis by (simp add: prev_word_def nth_append)
qed

lemma match_filler_run:
  assumes f: "wordy f" and w: "w \<noteq> []" "list_all is_word w" and r: "\<not> starts_with is_word r"
  shows "match_filler f False (w @ r) =
           (if ci_eq w f then Some (if punct_then_word r then Suc (length f) else length f)
            else None)"
proof -
  from f have fw: "list_all is_word f" and fn: "f \<noteq> []" by (simp_all add: wordy_def)
  have b: "at_boundary False (w @ r)"
    using w by (cases w) (simp_all add: at_boundary_def)
  have lit: "match_literal f (w @ r) = (length f \<le> length w \<and> ci_eq (take (length f) w) f)"
    using fw r by (rule match_literal_run)
  show ?thesis
  proof (cases "ci_eq w f")
    case True
    then have len: "length w = length f" by (rule ci_eq_length)
    have pw: "prev_word False (w @ r) (length f) = True"
      using len w fn by (simp add: prev_word_run)
    have "(case r of [] \<Rightarrow> False | p # r' \<Rightarrow> is_punct p \<and> at_boundary (is_word p) r')
            = punct_then_word r"
      by (cases r) (auto simp: punct_then_word_def at_boundary_starts dest: punct_not_word)
    with True len b lit pw r show ?thesis
      by (simp add: match_filler_def at_boundary_starts)
  next
    case False
    show ?thesis
    proof (cases "match_literal f (w @ r)")
      case no: False
      with False show ?thesis by (simp add: match_filler_def)
    next
      case yes: True
      with lit have le: "length f \<le> length w" and eq: "ci_eq (take (length f) w) f" by simp_all
      from False eq have lt: "length f < length w"
        using le by (cases "length f = length w") auto
      then obtain x xs where d: "drop (length f) w = x # xs"
        by (cases "drop (length f) w") auto
      have "x \<in> set w" using d by (metis in_set_dropD list.set_intros(1))
      with w have x: "is_word x" by (simp add: list_all_iff)
      have pw: "prev_word False (w @ r) (length f) = True"
        using lt w fn by (simp add: prev_word_run)
      from False yes b d x pw lt show ?thesis
        by (auto simp: match_filler_def Let_def at_boundary_def dest: punct_not_word)
    qed
  qed
qed


lemma sub_filler_sep:
  "wordy g \<Longrightarrow> \<not> is_word c \<Longrightarrow> sub_filler g pw (c # cs) = c # sub_filler g False cs"
  by (simp add: match_filler_sep)

lemma sub_filler_inside:
  "list_all is_word u \<Longrightarrow> sub_filler g True (u @ r) = u @ sub_filler g True r"
  by (induction u) (simp_all add: match_filler_inside)

lemma sub_filler_flag:
  assumes "wordy g" and "\<not> starts_with is_word r"
  shows "sub_filler g True r = sub_filler g False r"
  using assms by (cases r) (simp_all add: sub_filler_sep del: sub_filler.simps(2))

lemma sub_filler_run_keep:
  assumes g: "wordy g" and w: "w \<noteq> []" "list_all is_word w" and r: "\<not> starts_with is_word r"
    and no: "\<not> ci_eq w g"
  shows "sub_filler g False (w @ r) = w @ sub_filler g False r"
proof -
  from w obtain c u where cu: "w = c # u" "is_word c" "list_all is_word u"
    by (cases w) auto
  have "match_filler g False (w @ r) = None"
    using match_filler_run [OF g w r] no by simp
  with cu have "sub_filler g False (w @ r) = c # sub_filler g True (u @ r)"
    by simp
  also have "\<dots> = w @ sub_filler g True r"
    using cu by (simp add: sub_filler_inside)
  finally show ?thesis
    using sub_filler_flag [OF g r] by simp
qed

lemma sub_filler_run_drop:
  assumes g: "wordy g" and w: "w \<noteq> []" "list_all is_word w" and r: "\<not> starts_with is_word r"
    and eq: "ci_eq w g" and np: "\<not> punct_then_word r"
  shows "sub_filler g False (w @ r) = sub_filler g False r"
proof -
  from w obtain c u where cu: "w = c # u" by (cases w) auto
  from eq have len: "length w = length g" by (rule ci_eq_length)
  have m: "match_filler g False (c # u @ r) = Some (Suc (length u))"
    using match_filler_run [OF g w r] eq np cu len by simp
  have "prev_word False (w @ r) (length w)"
    using w by (simp add: prev_word_run)
  with cu have "prev_word False (c # u @ r) (Suc (length u))" by simp
  with m have "sub_filler g False (c # u @ r) = sub_filler g True r"
    by simp
  with cu show ?thesis
    using sub_filler_flag [OF g r] by simp
qed

lemma sub_filler_run_punct:
  assumes g: "wordy g" and w: "w \<noteq> []" "list_all is_word w"
    and eq: "ci_eq w g" and p: "is_punct p" and r: "starts_with is_word r"
  shows "sub_filler g False (w @ p # r) = sub_filler g False r"
proof -
  from w obtain c u where cu: "w = c # u" by (cases w) auto
  from eq have len: "length w = length g" by (rule ci_eq_length)
  from p have pn: "\<not> starts_with is_word (p # r)" by (simp add: punct_not_word)
  have m: "match_filler g False (c # u @ p # r) = Some (Suc (Suc (length u)))"
    using match_filler_run [OF g w pn] eq p r cu len by (simp add: punct_then_word_def)
  have "prev_word False (c # u @ p # r) (Suc (Suc (length u))) = is_word p"
    by (simp add: prev_word_def nth_append)
  with m p have "sub_filler g False (c # u @ p # r) = sub_filler g False r"
    by (simp add: punct_not_word)
  with cu show ?thesis by simp
qed

lemma starts_word_sub_filler:
  assumes "wordy g" and "\<not> starts_with is_word r"
  shows "\<not> starts_with is_word (sub_filler g False r)"
  using assms by (cases r) (simp_all add: sub_filler_sep del: sub_filler.simps(2))


subsection \<open>The words of a text and the cleanup steps\<close>

lemma not_starts_takeWhile: "\<not> starts_with P r \<Longrightarrow> takeWhile P r = [] \<and> dropWhile P r = r"
  by (cases r) simp_all

lemma words_sep: "\<not> is_word c \<Longrightarrow> words (c # cs) = words cs"
  by simp

lemma words_run:
  assumes "w \<noteq> []" and "list_all is_word w" and "\<not> starts_with is_word r"
  shows "words (w @ r) = w # words r"
proof -
  from assms(1,2) obtain c u where cu: "w = c # u" "is_word c" "\<forall>x\<in>set u. is_word x"
    by (cases w) (auto simp: list_all_iff)
  from cu(3) have "takeWhile is_word (u @ r) = u @ takeWhile is_word r"
    and "dropWhile is_word (u @ r) = dropWhile is_word r"
    by (simp_all add: takeWhile_append2 dropWhile_append2)
  with not_starts_takeWhile [OF assms(3)] cu show ?thesis by simp
qed

lemma words_word_Cons:
  assumes "is_word c"
  shows "words (c # t) =
           (if starts_with is_word t then (c # hd (words t)) # tl (words t) else [c] # words t)"
  using assms by (cases t) simp_all

lemma words_cong_Cons:
  assumes "words x = words y" and "starts_with is_word x = starts_with is_word y"
  shows "words (c # x) = words (c # y)"
proof (cases "is_word c")
  case True
  with assms show ?thesis by (simp add: words_word_Cons del: words.simps)
next
  case False
  with assms show ?thesis by simp
qed

lemma words_dropWhile_sep: "(\<And>c. S c \<Longrightarrow> \<not> is_word c) \<Longrightarrow> words (dropWhile S t) = words t"
  by (induction t) auto

lemma words_seps: "list_all (\<lambda>c. \<not> is_word c) s \<Longrightarrow> words s = []"
  by (induction s) auto

lemma words_append_seps:
  assumes "list_all (\<lambda>c. \<not> is_word c) s"
  shows "words (a @ s) = words a"
proof (induction a)
  case Nil
  from assms show ?case by (simp add: words_seps)
next
  case (Cons c a)
  have "starts_with is_word (a @ s) = starts_with is_word a"
    using assms by (cases a; cases s) simp_all
  with Cons have "words (c # (a @ s)) = words (c # a)"
    by (rule words_cong_Cons)
  then show ?case by simp
qed

lemma starts_word_sub_spaces: "starts_with is_word (sub_spaces t) = starts_with is_word t"
  by (cases t) (auto simp: is_space_def is_word_def)

lemma words_sub_spaces: "words (sub_spaces t) = words t"
proof (induction t rule: sub_spaces.induct)
  case 1
  then show ?case by simp
next
  case (2 c cs)
  show ?case
  proof (cases "is_space c \<and> starts_with is_space cs")
    case True
    then have eq: "sub_spaces (c # cs) = CHR '' '' # sub_spaces (dropWhile is_space cs)"
      by (cases cs) simp_all
    have "words (sub_spaces (dropWhile is_space cs)) = words (dropWhile is_space cs)"
      using 2(1) True by (cases cs) simp_all
    also have "\<dots> = words cs"
      by (rule words_dropWhile_sep) (rule space_not_word)
    finally have "words (sub_spaces (dropWhile is_space cs)) = words cs" .
    moreover have "\<not> is_word CHR '' ''" by (simp add: is_word_def)
    moreover have "\<not> is_word c" using True by (simp add: space_not_word)
    ultimately show ?thesis
      unfolding eq by simp
  next
    case False
    then have eq: "sub_spaces (c # cs) = c # sub_spaces cs"
      by (cases cs) auto
    have "words (sub_spaces cs) = words cs"
      using 2(2) False by (cases cs) auto
    then have "words (c # sub_spaces cs) = words (c # cs)"
      using starts_word_sub_spaces by (rule words_cong_Cons)
    with eq show ?thesis by simp
  qed
qed

lemma starts_word_sub_space_punct:
  "starts_with is_word (sub_space_punct t) = starts_with is_word t"
proof (cases t)
  case Nil
  then show ?thesis by simp
next
  case (Cons c cs)
  show ?thesis
  proof (cases "is_space c \<and> starts_with is_sentence_punct (dropWhile is_space cs)")
    case False
    with Cons show ?thesis by (simp add: sub_space_punct_keep del: sub_space_punct.simps)
  next
    case True
    then obtain p r where pr: "dropWhile is_space cs = p # r" "is_sentence_punct p"
      by (cases "dropWhile is_space cs") auto
    with True Cons show ?thesis
      by (simp add: sub_space_punct_match sentence_punct_not_word space_not_word
            del: sub_space_punct.simps)
  qed
qed

lemma words_sub_space_punct: "words (sub_space_punct t) = words t"
proof (induction t rule: sub_space_punct.induct)
  case 1
  then show ?case by simp
next
  case (2 c cs)
  show ?case
  proof (cases "is_space c \<and> starts_with is_sentence_punct (dropWhile is_space cs)")
    case False
    then have eq: "sub_space_punct (c # cs) = c # sub_space_punct cs"
      by (rule sub_space_punct_keep)
    have "words (sub_space_punct cs) = words cs"
      using 2 False by (cases "dropWhile is_space cs") (auto simp del: dropWhile_eq_Nil_conv)
    then have "words (c # sub_space_punct cs) = words (c # cs)"
      using starts_word_sub_space_punct by (rule words_cong_Cons)
    with eq show ?thesis by simp
  next
    case True
    then obtain p r where pr: "dropWhile is_space cs = p # r" "is_sentence_punct p"
      by (cases "dropWhile is_space cs") auto
    with True have eq: "sub_space_punct (c # cs) = p # sub_space_punct r"
      by (simp add: sub_space_punct_match del: sub_space_punct.simps)
    have "words (sub_space_punct r) = words r"
      using 2(2) [OF _ pr(1) pr(2)] True by simp
    then have "words (p # sub_space_punct r) = words (p # r)"
      using pr(2) by (simp add: sentence_punct_not_word)
    also have "\<dots> = words (dropWhile is_space cs)"
      using pr(1) by simp
    also have "\<dots> = words cs"
      by (rule words_dropWhile_sep) (rule space_not_word)
    also have "\<dots> = words (c # cs)"
      using True by (simp add: space_not_word)
    finally show ?thesis using eq by simp
  qed
qed

lemma words_sub_leading_comma: "words (sub_leading_comma t) = words t"
proof (cases t)
  case Nil
  then show ?thesis by (simp add: sub_leading_comma_def)
next
  case (Cons c cs)
  have "words (dropWhile is_space cs) = words cs"
    by (rule words_dropWhile_sep) (rule space_not_word)
  moreover have "\<not> is_word CHR '',''" by (simp add: is_word_def)
  ultimately show ?thesis
    using Cons by (simp add: sub_leading_comma_def)
qed

lemma words_strip: "words (strip t) = words t"
proof -
  let ?l = "dropWhile is_space t"
  have "?l = rev (dropWhile is_space (rev ?l)) @ rev (takeWhile is_space (rev ?l))"
    by (metis rev_append rev_rev_ident takeWhile_dropWhile_id)
  moreover have "list_all (\<lambda>c. \<not> is_word c) (rev (takeWhile is_space (rev ?l)))"
    by (auto simp: list_all_iff dest!: set_takeWhileD dest: space_not_word)
  ultimately have "words ?l = words (rev (dropWhile is_space (rev ?l)))"
    by (metis words_append_seps)
  moreover have "words ?l = words t"
    by (rule words_dropWhile_sep) (rule space_not_word)
  ultimately show ?thesis by (simp add: strip_def)
qed

lemma words_cleanup: "words (cleanup t) = words t"
  by (simp add: cleanup_def words_strip words_sub_leading_comma words_sub_space_punct
        words_sub_spaces)


subsection \<open>Occurrences of a filler\<close>

lemma filler_found_sep:
  "wordy f \<Longrightarrow> \<not> is_word c \<Longrightarrow> filler_found f pw (c # cs) = filler_found f False cs"
  by (simp add: match_filler_sep)

lemma filler_found_inside:
  "list_all is_word u \<Longrightarrow> filler_found f True (u @ r) = filler_found f True r"
  by (induction u) (simp_all add: match_filler_inside)

lemma filler_found_flag:
  assumes "wordy f" and "\<not> starts_with is_word r"
  shows "filler_found f True r = filler_found f False r"
  using assms by (cases r) (simp_all add: filler_found_sep del: filler_found.simps(2))

lemma filler_found_run:
  assumes f: "wordy f" and w: "w \<noteq> []" "list_all is_word w" and r: "\<not> starts_with is_word r"
  shows "filler_found f False (w @ r) = (ci_eq w f \<or> filler_found f False r)"
proof -
  from w obtain c u where cu: "w = c # u" "is_word c" "list_all is_word u"
    by (cases w) auto
  have "filler_found f False (w @ r)
          = (match_filler f False (w @ r) \<noteq> None \<or> filler_found f True (u @ r))"
    using cu by simp
  also have "\<dots> = (ci_eq w f \<or> filler_found f True r)"
    using match_filler_run [OF f w r] cu(3) by (simp add: filler_found_inside)
  finally show ?thesis
    using filler_found_flag [OF f r] by simp
qed

lemma filler_found_words:
  assumes "wordy f"
  shows "filler_found f False t = (\<exists>w \<in> set (words t). ci_eq w f)"
proof (induction t rule: runs_induct)
  case Nil
  then show ?case by simp
next
  case (Sep c cs)
  with assms show ?case by (simp add: filler_found_sep del: filler_found.simps(2))
next
  case (Run w r)
  with assms show ?case by (simp add: filler_found_run words_run)
qed

lemma words_sub_filler:
  assumes g: "wordy g"
  shows "words (sub_filler g False t) = filter (\<lambda>w. \<not> ci_eq w g) (words t)"
proof (induction t rule: runs_induct)
  case Nil
  then show ?case by simp
next
  case (Sep c cs)
  with g show ?case by (simp add: sub_filler_sep del: sub_filler.simps(2))
next
  case (Run w r)
  note run = Run(1,2,3)
  show ?case
  proof (cases "ci_eq w g")
    case False
    have "sub_filler g False (w @ r) = w @ sub_filler g False r"
      using g run False by (rule sub_filler_run_keep)
    moreover have "\<not> starts_with is_word (sub_filler g False r)"
      using g run(3) by (rule starts_word_sub_filler)
    ultimately show ?thesis
      using run False Run.IH by (simp add: words_run)
  next
    case True
    show ?thesis
    proof (cases "punct_then_word r")
      case no: False
      have "sub_filler g False (w @ r) = sub_filler g False r"
        using g run True no by (rule sub_filler_run_drop)
      with run True Run.IH show ?thesis by (simp add: words_run)
    next
      case yes: True
      then obtain p r' where r: "r = p # r'" "is_punct p" "starts_with is_word r'"
        by (cases r) (auto simp: punct_then_word_def)
      have "sub_filler g False (w @ p # r') = sub_filler g False r'"
        using g run(1,2) True r(2,3) by (rule sub_filler_run_punct)
      moreover have "sub_filler g False r = p # sub_filler g False r'"
        using g r by (simp add: sub_filler_sep punct_not_word del: sub_filler.simps(2))
      ultimately have "words (sub_filler g False (w @ r)) = words (sub_filler g False r)"
        using r by (simp add: punct_not_word)
      with run True Run.IH show ?thesis by (simp add: words_run)
    qed
  qed
qed

lemma wordy_FILLERS: "f \<in> set FILLERS \<Longrightarrow> wordy f"
  by (auto simp: FILLERS_def wordy_def is_word_def)

lemma words_remove_fillers:
  assumes "\<And>f. f \<in> set fs \<Longrightarrow> wordy f"
  shows "words (remove_fillers fs t) = filter (\<lambda>w. \<forall>f \<in> set fs. \<not> ci_eq w f) (words t)"
  using assms
proof (induction fs arbitrary: t)
  case Nil
  then show ?case by simp
next
  case (Cons g fs)
  then have "words (remove_fillers (g # fs) t)
      = filter (\<lambda>w. \<forall>f \<in> set fs. \<not> ci_eq w f) (filter (\<lambda>w. \<not> ci_eq w g) (words t))"
    by (simp add: words_sub_filler)
  then show ?case by (simp add: conj_commute)
qed

lemma words_clean_hesitations:
  "words (clean_hesitations x) = filter (\<lambda>w. \<forall>f \<in> set FILLERS. \<not> ci_eq w f) (words x)"
  by (simp add: clean_hesitations_def words_cleanup words_remove_fillers wordy_FILLERS)

text \<open>
  C5: for every text \<open>x\<close> and every filler \<open>f\<close> of the vocabulary, the pattern of the
  removal pass of \<open>f\<close> (the filler as a whole word, ignoring case, with or without a
  period or comma after it) matches nowhere in the result of \<open>clean_hesitations\<close>, and
  no word of the result equals \<open>f\<close> up to case. The words of the result are the words of
  \<open>x\<close> that are not fillers: a pass removes whole words and never joins two words, and
  the cleanup steps touch no word character.
\<close>

theorem clean_hesitations_no_filler:
  assumes "f \<in> set FILLERS"
  shows "\<not> filler_found f False (clean_hesitations x)
         \<and> (\<forall>w \<in> set (words (clean_hesitations x)). \<not> ci_eq w f)"
proof -
  from assms have "wordy f" by (rule wordy_FILLERS)
  then have "filler_found f False (clean_hesitations x)
      = (\<exists>w \<in> set (words (clean_hesitations x)). ci_eq w f)"
    by (rule filler_found_words)
  moreover have "\<forall>w \<in> set (words (clean_hesitations x)). \<not> ci_eq w f"
    using assms by (auto simp: words_clean_hesitations)
  ultimately show ?thesis by simp
qed

theorem clean_hesitations_no_filler_witness:
  "''hmm'' \<in> set FILLERS
   \<and> filler_found ''hmm'' False ''Hmm.well, uh, I HMM, agree''
   \<and> clean_hesitations ''Hmm.well, uh, I HMM, agree'' = ''well,, I, agree''
   \<and> \<not> filler_found ''hmm'' False (clean_hesitations ''Hmm.well, uh, I HMM, agree'')"
proof -
  have h: "''hmm'' \<in> set FILLERS" by (simp add: FILLERS_def)
  have "filler_found ''hmm'' False ''Hmm.well, uh, I HMM, agree''" by code_simp
  moreover have "clean_hesitations ''Hmm.well, uh, I HMM, agree'' = ''well,, I, agree''"
    by code_simp
  ultimately show ?thesis
    using h clean_hesitations_no_filler [OF h, of "''Hmm.well, uh, I HMM, agree''"] by simp
qed

section \<open>The order of the removal passes\<close>

text \<open>
  C2 (every order of the three fillers gives the same result, for every text), evaluated
  where it fails. The loop of the source is \<open>remove_fillers\<close>, and the steps after it are
  \<open>cleanup\<close>; the loop is run here over \<open>um\<close>, \<open>uh\<close>, \<open>hmm\<close>, a permutation of
  \<open>FILLERS\<close>. In \<open>uh.um x\<close> the pass for \<open>uh\<close> takes the period with it only while
  \<open>um\<close> still follows the period, because the closing \<open>\b\<close> of the pattern stands after
  the optional punctuation. In the order of the source the result is \<open>x\<close>; with \<open>um\<close>
  removed first the period stays and the result is \<open>. x\<close>.
\<close>

theorem filler_order_changes_result:
  "mset [''um'', ''uh'', ''hmm''] = mset FILLERS
   \<and> cleanup (remove_fillers [''um'', ''uh'', ''hmm''] ''uh.um x'') = ''. x''
   \<and> cleanup (remove_fillers FILLERS ''uh.um x'') = ''x''
   \<and> clean_hesitations ''uh.um x'' = ''x''"
proof -
  have "mset [''um'', ''uh'', ''hmm''] = mset FILLERS"
    by (simp add: FILLERS_def)
  moreover have "cleanup (remove_fillers [''um'', ''uh'', ''hmm''] ''uh.um x'') = ''. x''"
    by code_simp
  moreover have "cleanup (remove_fillers FILLERS ''uh.um x'') = ''x''"
    by code_simp
  moreover have "clean_hesitations ''uh.um x'' = ''x''"
    by code_simp
  ultimately show ?thesis by simp
qed

text \<open>
  The order can matter only through such a match: the lemmas below show that the words
  of the result never depend on the order, and that the passes commute on every text in
  which no match takes the punctuation.
\<close>

lemma punct_taken_sep:
  assumes "list_all wordy fs" and "\<not> is_word c"
  shows "punct_taken fs pw (c # cs) = punct_taken fs False cs"
  using assms by (simp add: match_filler_sep list_all_iff)

lemma punct_taken_inside:
  "list_all is_word u \<Longrightarrow> punct_taken fs True (u @ r) = punct_taken fs True r"
  by (induction u) (simp_all add: match_filler_inside)

lemma punct_taken_flag:
  assumes "list_all wordy fs" and "\<not> starts_with is_word r"
  shows "punct_taken fs True r = punct_taken fs False r"
proof (cases r)
  case Nil
  then show ?thesis by simp
next
  case (Cons c cs)
  with assms(2) have "\<not> is_word c" by simp
  with assms(1) Cons show ?thesis
    by (simp add: punct_taken_sep del: punct_taken.simps(2))
qed

lemma punct_taken_run:
  assumes fs: "list_all wordy fs"
    and w: "w \<noteq> []" "list_all is_word w" and r: "\<not> starts_with is_word r"
  shows "punct_taken fs False (w @ r)
           = ((\<exists>f \<in> set fs. ci_eq w f) \<and> punct_then_word r \<or> punct_taken fs False r)"
proof -
  from w obtain c u where cu: "w = c # u" "is_word c" "list_all is_word u"
    by (cases w) auto
  have m: "(match_filler f False (w @ r) = Some (Suc (length f))) = (ci_eq w f \<and> punct_then_word r)"
    if "f \<in> set fs" for f
  proof -
    from that fs have "wordy f" by (simp add: list_all_iff)
    then show ?thesis using match_filler_run [OF _ w r] by simp
  qed
  have "punct_taken fs False (w @ r)
          = ((\<exists>f \<in> set fs. match_filler f False (w @ r) = Some (Suc (length f)))
             \<or> punct_taken fs True (u @ r))"
    using cu by simp
  also have "\<dots> = ((\<exists>f \<in> set fs. ci_eq w f \<and> punct_then_word r) \<or> punct_taken fs True r)"
    using m cu(3) by (simp add: punct_taken_inside)
  finally show ?thesis
    using punct_taken_flag [OF fs r] by auto
qed

lemma punct_then_word_sub_filler:
  assumes "wordy g" and "\<not> starts_with is_word r" and "punct_then_word (sub_filler g False r)"
  shows "punct_then_word r"
proof (cases r)
  case Nil
  with assms(3) show ?thesis by simp
next
  case (Cons c cs)
  with assms(2) have "\<not> is_word c" by simp
  with assms(1) Cons have eq: "sub_filler g False r = c # sub_filler g False cs"
    by (simp add: sub_filler_sep del: sub_filler.simps(2))
  with assms(3) have "is_punct c" "starts_with is_word (sub_filler g False cs)"
    by (simp_all add: punct_then_word_def)
  moreover from this(2) have "starts_with is_word cs"
    using starts_word_sub_filler [OF assms(1), of cs] by auto
  ultimately show ?thesis using Cons by (simp add: punct_then_word_def)
qed

text \<open>A pass on a run of word characters, when the punctuation is not part of the match.\<close>

lemma sub_filler_run_plain:
  assumes g: "wordy g" and w: "w \<noteq> []" "list_all is_word w" and r: "\<not> starts_with is_word r"
    and np: "\<not> (ci_eq w g \<and> punct_then_word r)"
  shows "sub_filler g False (w @ r) = (if ci_eq w g then [] else w) @ sub_filler g False r"
proof (cases "ci_eq w g")
  case True
  with np have "\<not> punct_then_word r" by simp
  with g w r True show ?thesis by (simp add: sub_filler_run_drop)
next
  case False
  with g w r show ?thesis by (simp add: sub_filler_run_keep)
qed

lemma punct_taken_sub_filler:
  assumes fs: "list_all wordy fs" and g: "g \<in> set fs"
  shows "\<not> punct_taken fs False t \<Longrightarrow> \<not> punct_taken fs False (sub_filler g False t)"
proof (induction t rule: runs_induct)
  case Nil
  then show ?case by simp
next
  case (Sep c cs)
  from g fs have wg: "wordy g" by (simp add: list_all_iff)
  from Sep fs have "\<not> punct_taken fs False cs"
    by (simp add: punct_taken_sep del: punct_taken.simps(2))
  with Sep.IH have "\<not> punct_taken fs False (sub_filler g False cs)" by simp
  with Sep(1) wg fs show ?case
    by (simp add: sub_filler_sep punct_taken_sep del: sub_filler.simps(2) punct_taken.simps(2))
next
  case (Run w r)
  from g fs have wg: "wordy g" by (simp add: list_all_iff)
  note run = Run(1,2,3)
  from Run.prems have a: "\<not> ((\<exists>f \<in> set fs. ci_eq w f) \<and> punct_then_word r)"
    and b: "\<not> punct_taken fs False r"
    using punct_taken_run [OF fs run] by auto
  from b Run.IH have ih: "\<not> punct_taken fs False (sub_filler g False r)" by simp
  from a g have "\<not> (ci_eq w g \<and> punct_then_word r)" by auto
  with wg run have eq: "sub_filler g False (w @ r)
      = (if ci_eq w g then [] else w) @ sub_filler g False r"
    by (rule sub_filler_run_plain)
  show ?case
  proof (cases "ci_eq w g")
    case True
    with eq ih show ?thesis by simp
  next
    case False
    have s: "\<not> starts_with is_word (sub_filler g False r)"
      using wg run(3) by (rule starts_word_sub_filler)
    have "\<not> punct_then_word (sub_filler g False r)" if "\<exists>f \<in> set fs. ci_eq w f"
      using that a punct_then_word_sub_filler [OF wg run(3)] by auto
    with ih False eq show ?thesis
      using punct_taken_run [OF fs run(1,2) s] by auto
  qed
qed

lemma sub_filler_commute:
  assumes f: "wordy f" and g: "wordy g"
  shows "\<not> punct_taken [f, g] False t
         \<Longrightarrow> sub_filler f False (sub_filler g False t) = sub_filler g False (sub_filler f False t)"
proof (induction t rule: runs_induct)
  case Nil
  then show ?case by simp
next
  case (Sep c cs)
  have fs: "list_all wordy [f, g]" using f g by simp
  from Sep(1,3) have "\<not> punct_taken [f, g] False cs"
    using punct_taken_sep [OF fs Sep(1)] by simp
  with Sep.IH have "sub_filler f False (sub_filler g False cs)
      = sub_filler g False (sub_filler f False cs)" by simp
  with Sep(1) f g show ?case
    by (simp add: sub_filler_sep del: sub_filler.simps(2))
next
  case (Run w r)
  have fs: "list_all wordy [f, g]" using f g by simp
  note run = Run(1,2,3)
  from Run.prems have a: "\<not> ((ci_eq w f \<or> ci_eq w g) \<and> punct_then_word r)"
    and b: "\<not> punct_taken [f, g] False r"
    using punct_taken_run [OF fs run] by auto
  from b Run.IH have ih: "sub_filler f False (sub_filler g False r)
      = sub_filler g False (sub_filler f False r)" by simp
  have step: "sub_filler h False (sub_filler k False (w @ r))
      = (if ci_eq w k \<or> ci_eq w h then [] else w) @ sub_filler h False (sub_filler k False r)"
    if h: "wordy h" and k: "wordy k" and nh: "\<not> (ci_eq w h \<and> punct_then_word r)"
      and nk: "\<not> (ci_eq w k \<and> punct_then_word r)" for h k
  proof -
    have eq: "sub_filler k False (w @ r) = (if ci_eq w k then [] else w) @ sub_filler k False r"
      using k run nk by (rule sub_filler_run_plain)
    show ?thesis
    proof (cases "ci_eq w k")
      case True
      with eq show ?thesis by simp
    next
      case False
      have s: "\<not> starts_with is_word (sub_filler k False r)"
        using k run(3) by (rule starts_word_sub_filler)
      have "\<not> (ci_eq w h \<and> punct_then_word (sub_filler k False r))"
        using nh punct_then_word_sub_filler [OF k run(3)] by auto
      with h run(1,2) s have "sub_filler h False (w @ sub_filler k False r)
          = (if ci_eq w h then [] else w) @ sub_filler h False (sub_filler k False r)"
        by (rule sub_filler_run_plain)
      with eq False show ?thesis by simp
    qed
  qed
  from a have nf: "\<not> (ci_eq w f \<and> punct_then_word r)" and ng: "\<not> (ci_eq w g \<and> punct_then_word r)"
    by auto
  show ?case
    using step [OF f g nf ng] step [OF g f ng nf] ih by auto
qed


lemma punct_taken_mono:
  "set fs \<subseteq> set gs \<Longrightarrow> punct_taken fs pw t \<Longrightarrow> punct_taken gs pw t"
  by (induction t arbitrary: pw) auto

lemma remove_fillers_guarded:
  assumes F: "list_all wordy F"
  shows "set hs \<subseteq> set F \<Longrightarrow> \<not> punct_taken F False t
         \<Longrightarrow> fold (\<lambda>f t. if punct_taken F False t then t else sub_filler f False t) hs t
             = remove_fillers hs t"
proof (induction hs arbitrary: t)
  case Nil
  then show ?case by simp
next
  case (Cons h hs)
  from Cons.prems have h: "h \<in> set F" by simp
  with F have "\<not> punct_taken F False (sub_filler h False t)"
    using Cons.prems(2) by (rule punct_taken_sub_filler)
  with Cons show ?case by simp
qed

lemma remove_fillers_permuted:
  assumes F: "list_all wordy F" and perm: "mset fs = mset F" and x: "\<not> punct_taken F False x"
  shows "remove_fillers fs x = remove_fillers F x"
proof -
  let ?G = "\<lambda>f t. if punct_taken F False t then t else sub_filler f False t"
  from perm have sets: "set fs = set F" by (rule mset_eq_setD)
  have comm: "?G f \<circ> ?G g = ?G g \<circ> ?G f" if f: "f \<in> set fs" and g: "g \<in> set fs" for f g
  proof
    fix t
    show "(?G f \<circ> ?G g) t = (?G g \<circ> ?G f) t"
    proof (cases "punct_taken F False t")
      case True
      then show ?thesis by simp
    next
      case False
      from f g sets have fF: "f \<in> set F" and gF: "g \<in> set F" by simp_all
      with F have wf: "wordy f" and wg: "wordy g" by (simp_all add: list_all_iff)
      have "\<not> punct_taken F False (sub_filler f False t)"
        using F fF False by (rule punct_taken_sub_filler)
      moreover have "\<not> punct_taken F False (sub_filler g False t)"
        using F gF False by (rule punct_taken_sub_filler)
      moreover have "\<not> punct_taken [f, g] False t"
        using False fF gF punct_taken_mono [of "[f, g]" F False t] by auto
      with wf wg have "sub_filler f False (sub_filler g False t)
          = sub_filler g False (sub_filler f False t)"
        by (rule sub_filler_commute)
      ultimately show ?thesis using False by simp
    qed
  qed
  have "fold ?G fs = fold ?G F"
    using comm perm by (rule fold_multiset_equiv)
  then have "fold ?G fs x = fold ?G F x" by simp
  moreover have "fold ?G fs x = remove_fillers fs x"
    using F _ x by (rule remove_fillers_guarded) (simp add: sets)
  moreover have "fold ?G F x = remove_fillers F x"
    using F _ x by (rule remove_fillers_guarded) simp
  ultimately show ?thesis by simp
qed

lemma list_all_wordy_FILLERS: "list_all wordy FILLERS"
  by (simp add: list_all_iff wordy_FILLERS)

lemma words_any_order:
  assumes "mset fs = mset FILLERS"
  shows "words (cleanup (remove_fillers fs x)) = words (clean_hesitations x)"
proof -
  from assms have sets: "set fs = set FILLERS" by (rule mset_eq_setD)
  have "words (remove_fillers fs x) = filter (\<lambda>w. \<forall>f \<in> set fs. \<not> ci_eq w f) (words x)"
    by (rule words_remove_fillers) (simp add: sets wordy_FILLERS)
  with sets show ?thesis
    by (simp add: words_cleanup words_clean_hesitations)
qed

lemma any_order_without_punctuation:
  assumes "mset fs = mset FILLERS" and "\<not> punct_taken FILLERS False x"
  shows "cleanup (remove_fillers fs x) = clean_hesitations x"
proof -
  from list_all_wordy_FILLERS assms have "remove_fillers fs x = remove_fillers FILLERS x"
    by (rule remove_fillers_permuted)
  then show ?thesis by (simp add: clean_hesitations_def)
qed

section \<open>Where a second application changes nothing\<close>

lemma sub_filler_absent:
  assumes g: "wordy g"
  shows "\<not> filler_found g False t \<Longrightarrow> sub_filler g False t = t"
proof (induction t rule: runs_induct)
  case Nil
  then show ?case by simp
next
  case (Sep c cs)
  with g show ?case
    by (simp add: sub_filler_sep filler_found_sep del: sub_filler.simps(2) filler_found.simps(2))
next
  case (Run w r)
  from Run.prems have "\<not> ci_eq w g" "\<not> filler_found g False r"
    using filler_found_run [OF g Run(1,2,3)] by simp_all
  with g Run show ?case by (simp add: sub_filler_run_keep)
qed

lemma remove_fillers_absent:
  "list_all wordy fs \<Longrightarrow> \<forall>f \<in> set fs. \<not> filler_found f False t \<Longrightarrow> remove_fillers fs t = t"
  by (induction fs) (simp_all add: sub_filler_absent)

lemma sub_spaces_fixed: "\<not> has_space_run t \<Longrightarrow> sub_spaces t = t"
  unfolding has_space_run_def
proof (induction t)
  case Nil
  then show ?case by simp
next
  case (Cons c cs)
  then have "\<not> (is_space c \<and> starts_with is_space cs)" "sub_spaces cs = cs"
    by (simp_all add: follows_Cons)
  then show ?case by (cases cs) auto
qed

lemma space_run_before_punct:
  "is_space c \<Longrightarrow> starts_with is_sentence_punct (dropWhile is_space cs)
   \<Longrightarrow> follows is_space is_sentence_punct (c # cs)"
proof (induction cs arbitrary: c)
  case Nil
  then show ?case by simp
next
  case (Cons d ds)
  show ?case
  proof (cases "is_space d")
    case True
    with Cons have "follows is_space is_sentence_punct (d # ds)" by simp
    then show ?thesis by (simp add: follows_Cons)
  next
    case False
    with Cons.prems show ?thesis by simp
  qed
qed

lemma sub_space_punct_fixed: "\<not> has_space_before_punct t \<Longrightarrow> sub_space_punct t = t"
  unfolding has_space_before_punct_def
proof (induction t)
  case Nil
  then show ?case by simp
next
  case (Cons c cs)
  then have "\<not> (is_space c \<and> starts_with is_sentence_punct (dropWhile is_space cs))"
    using space_run_before_punct [of c cs] by auto
  then have "sub_space_punct (c # cs) = c # sub_space_punct cs"
    by (rule sub_space_punct_keep)
  moreover from Cons have "sub_space_punct cs = cs" by (simp add: follows_Cons)
  ultimately show ?case by simp
qed

lemma dropWhile_fixed: "\<not> starts_with P t \<Longrightarrow> dropWhile P t = t"
  by (cases t) simp_all

lemma starts_rstrip:
  assumes "\<not> starts_with P t"
  shows "\<not> starts_with P (rev (dropWhile P (rev t)))"
proof -
  define b where "b = rev (dropWhile P (rev t))"
  define s where "s = rev (takeWhile P (rev t))"
  have "rev t = rev s @ rev b"
    unfolding b_def s_def by simp
  then have dec: "t = b @ s"
    by (metis rev_append rev_rev_ident)
  have "\<not> starts_with P b"
  proof (cases b)
    case Nil
    then show ?thesis by simp
  next
    case (Cons h b')
    with dec assms show ?thesis by simp
  qed
  then show ?thesis by (simp add: b_def)
qed

lemma strip_strip: "strip (strip t) = strip t"
proof -
  define a where "a = dropWhile is_space t"
  define b where "b = rev (dropWhile is_space (rev a))"
  have "\<not> starts_with is_space a"
    unfolding a_def by (rule starts_dropWhile)
  then have "\<not> starts_with is_space b"
    unfolding b_def by (rule starts_rstrip)
  then have 1: "dropWhile is_space b = b" by (rule dropWhile_fixed)
  have "\<not> starts_with is_space (dropWhile is_space (rev a))"
    by (rule starts_dropWhile)
  then have 2: "dropWhile is_space (rev b) = rev b"
    by (simp add: b_def dropWhile_fixed)
  have "strip t = b" by (simp add: strip_def a_def b_def)
  moreover have "strip b = b" using 1 2 by (simp add: strip_def)
  ultimately show ?thesis by simp
qed

text \<open>
  The leading comma is the only obstacle to idempotence: a result that does not start with
  a comma is a fixed point of \<open>clean_hesitations\<close>, since it holds no filler, no
  whitespace run, no whitespace before punctuation and no whitespace at its ends.
\<close>

lemma clean_hesitations_twice:
  assumes "\<not> starts_with (\<lambda>c. c = CHR '','') (clean_hesitations x)"
  shows "clean_hesitations (clean_hesitations x) = clean_hesitations x"
proof -
  let ?y = "clean_hesitations x"
  have "\<forall>f \<in> set FILLERS. \<not> filler_found f False ?y"
    by (simp add: filler_found_words wordy_FILLERS words_clean_hesitations)
  with list_all_wordy_FILLERS have "remove_fillers FILLERS ?y = ?y"
    by (rule remove_fillers_absent)
  moreover have "sub_spaces ?y = ?y"
  proof (rule sub_spaces_fixed)
    show "\<not> has_space_run ?y"
      using no_space_run_sub_spaces [of "remove_fillers FILLERS x"]
      unfolding clean_hesitations_def cleanup_def has_space_run_def
      by (blast dest: follows_strip follows_sub_leading_comma
             space_run_sub_space_punct [unfolded has_space_run_def])
  qed
  moreover have "sub_space_punct ?y = ?y"
  proof (rule sub_space_punct_fixed)
    show "\<not> has_space_before_punct ?y"
      using no_space_before_punct_sub_space_punct [of "sub_spaces (remove_fillers FILLERS x)"]
      unfolding clean_hesitations_def cleanup_def has_space_before_punct_def
      by (blast dest: follows_strip follows_sub_leading_comma)
  qed
  moreover have "sub_leading_comma ?y = ?y"
    using assms by (cases ?y) (simp_all add: sub_leading_comma_def)
  moreover have "strip ?y = ?y"
    by (simp add: clean_hesitations_def cleanup_def strip_strip)
  ultimately show ?thesis
    by (simp add: clean_hesitations_def [of ?y] cleanup_def)
qed

section \<open>The requests of one press\<close>

text \<open>Whatever the server answers, one press of the button requests the URL twice.\<close>

lemma two_fetches_per_press:
  "requests (snd (setup_sanitize_download sub_path True w))
     = requests w @ [BASE_URL @ (if take 1 sub_path = ''/'' then sub_path else ''/'' @ sub_path),
                     BASE_URL @ (if take 1 sub_path = ''/'' then sub_path else ''/'' @ sub_path)]"
  by (simp add: setup_sanitize_download_def download_subtitles_file_def Let_def
        split: prod.splits sum.splits)

end
